theory Spec2Isabelle
  imports Main
begin

section \<open>The canvas shell: \<open>App\<close> and \<open>WorkflowBuilder\<close>\<close>

text \<open>
  The two components of the repository, \<open>src/App.tsx\<close> and
  \<open>src/components/WorkflowBuilder.tsx\<close>. A component is a function from its hook state
  to the element tree it returns. \<open>WorkflowBuilder\<close> holds two \<open>useState\<close> slots,
  \<open>nodes\<close> and \<open>edges\<close>; the record is left extensible.
\<close>

record ('n, 'e) builder_state =
  nodes :: "'n list"
  edges :: "'e list"

text \<open>
  What a handler does is the list of state-setter calls its body makes, in order.
  \<open>setNodes\<close> and \<open>setEdges\<close> are the two setters that \<open>useState\<close> returns.
\<close>

datatype ('n, 'e) action = SetNodes "'n list" | SetEdges "'e list"

fun apply_action ::
  "('n, 'e) action \<Rightarrow> ('n, 'e, 'z) builder_state_scheme \<Rightarrow> ('n, 'e, 'z) builder_state_scheme"
where
  "apply_action (SetNodes ns) s = s\<lparr>nodes := ns\<rparr>"
| "apply_action (SetEdges es) s = s\<lparr>edges := es\<rparr>"

text \<open>
  The element tree: an HTML tag with its \<open>className\<close> and children, a text child, the
  \<open>ReactFlow\<close> component with the six props the source passes (\<open>nodes\<close>, \<open>edges\<close>,
  \<open>onNodesChange\<close>, \<open>onEdgesChange\<close>, \<open>className\<close>, \<open>fitView\<close>) and its children, and the
  three prop-less components of the library. \<open>'c\<close> is the type of the change batches
  that ReactFlow hands to the two handlers.
\<close>

datatype ('n, 'e, 'c) element =
    Tag string string "('n, 'e, 'c) element list"
  | Text string
  | ReactFlow "'n list" "'e list" "'c \<Rightarrow> ('n, 'e) action list" "'c \<Rightarrow> ('n, 'e) action list"
      string bool "('n, 'e, 'c) element list"
  | Background
  | Controls
  | MiniMap

text \<open>\<open>useState([])\<close>, twice: both slots start as the empty array.\<close>

definition initial_state :: "('n, 'e) builder_state" where
  "initial_state = \<lparr>nodes = [], edges = []\<rparr>"

text \<open>\<open>onNodesChange={() => {}}\<close> and \<open>onEdgesChange={() => {}}\<close>: empty bodies.\<close>

definition onNodesChange :: "'c \<Rightarrow> ('n, 'e) action list" where
  "onNodesChange changes = []"

definition onEdgesChange :: "'c \<Rightarrow> ('n, 'e) action list" where
  "onEdgesChange changes = []"

text \<open>
  \<open>WorkflowBuilder\<close>: the node palette on the left, the canvas with its toolbar in the
  middle, the properties panel on the right. The JSX comments leave no element.
\<close>

definition WorkflowBuilder ::
  "('n, 'e, 'z) builder_state_scheme \<Rightarrow> ('n, 'e, 'c) element" where
  "WorkflowBuilder s =
     Tag ''div'' ''flex h-full''
      [Tag ''div'' ''w-80 bg-white border-r border-gray-200 p-4 overflow-y-auto''
         [Tag ''h2'' ''text-lg font-semibold mb-4 text-gray-800'' [Text ''Node Palette''],
          Tag ''div'' ''mb-6''
            [Tag ''h3'' ''text-sm font-medium text-gray-600 mb-2'' [Text ''Triggers''],
             Tag ''div'' ''space-y-2''
               [Tag ''div''
                  ''p-3 bg-blue-50 border border-blue-200 rounded-md cursor-pointer hover:bg-blue-100 transition-colors''
                  [Tag ''div'' ''text-sm font-medium text-blue-800'' [Text ''Webhook''],
                   Tag ''div'' ''text-xs text-blue-600'' [Text ''HTTP endpoint trigger'']],
                Tag ''div''
                  ''p-3 bg-blue-50 border border-blue-200 rounded-md cursor-pointer hover:bg-blue-100 transition-colors''
                  [Tag ''div'' ''text-sm font-medium text-blue-800'' [Text ''Schedule''],
                   Tag ''div'' ''text-xs text-blue-600'' [Text ''Time-based trigger'']]]],
          Tag ''div'' ''mb-6''
            [Tag ''h3'' ''text-sm font-medium text-gray-600 mb-2'' [Text ''Actions''],
             Tag ''div'' ''space-y-2''
               [Tag ''div''
                  ''p-3 bg-green-50 border border-green-200 rounded-md cursor-pointer hover:bg-green-100 transition-colors''
                  [Tag ''div'' ''text-sm font-medium text-green-800'' [Text ''HTTP Request''],
                   Tag ''div'' ''text-xs text-green-600'' [Text ''Make API calls'']],
                Tag ''div''
                  ''p-3 bg-green-50 border border-green-200 rounded-md cursor-pointer hover:bg-green-100 transition-colors''
                  [Tag ''div'' ''text-sm font-medium text-green-800'' [Text ''Email''],
                   Tag ''div'' ''text-xs text-green-600'' [Text ''Send emails'']]]],
          Tag ''div'' ''mb-6''
            [Tag ''h3'' ''text-sm font-medium text-gray-600 mb-2'' [Text ''Logic''],
             Tag ''div'' ''space-y-2''
               [Tag ''div''
                  ''p-3 bg-purple-50 border border-purple-200 rounded-md cursor-pointer hover:bg-purple-100 transition-colors''
                  [Tag ''div'' ''text-sm font-medium text-purple-800'' [Text ''If/Else''],
                   Tag ''div'' ''text-xs text-purple-600'' [Text ''Conditional logic'']],
                Tag ''div''
                  ''p-3 bg-purple-50 border border-purple-200 rounded-md cursor-pointer hover:bg-purple-100 transition-colors''
                  [Tag ''div'' ''text-sm font-medium text-purple-800'' [Text ''Filter''],
                   Tag ''div'' ''text-xs text-purple-600'' [Text ''Data filtering'']]]]],
       Tag ''div'' ''flex-1 relative''
         [ReactFlow (nodes s) (edges s) onNodesChange onEdgesChange ''bg-gray-50'' True
            [Background, Controls, MiniMap],
          Tag ''div'' ''absolute top-4 left-4 z-10 flex space-x-2''
            [Tag ''button''
               ''px-4 py-2 bg-blue-600 text-white rounded-md hover:bg-blue-700 transition-colors''
               [Text ''Run''],
             Tag ''button''
               ''px-4 py-2 bg-gray-600 text-white rounded-md hover:bg-gray-700 transition-colors''
               [Text ''Save''],
             Tag ''button''
               ''px-4 py-2 bg-green-600 text-white rounded-md hover:bg-green-700 transition-colors''
               [Text ''Export'']]],
       Tag ''div'' ''w-80 bg-white border-l border-gray-200 p-4 overflow-y-auto''
         [Tag ''h2'' ''text-lg font-semibold mb-4 text-gray-800'' [Text ''Properties''],
          Tag ''div'' ''text-sm text-gray-500''
            [Text ''Select a node to configure its properties'']]]"

definition App :: "('n, 'e, 'z) builder_state_scheme \<Rightarrow> ('n, 'e, 'c) element" where
  "App s = Tag ''div'' ''h-screen w-screen bg-gray-50'' [WorkflowBuilder s]"

text \<open>
  The only handlers in the tree are the two on \<open>ReactFlow\<close> (no button and no palette
  card has one), so an interaction is a change batch delivered to one of them. The
  state after it is the state with the handler's setter calls applied.
\<close>

datatype 'c event = NodesChange 'c | EdgesChange 'c

fun handler_actions :: "'c event \<Rightarrow> ('n, 'e) action list" where
  "handler_actions (NodesChange c) = onNodesChange c"
| "handler_actions (EdgesChange c) = onEdgesChange c"

definition dispatch ::
  "'c event \<Rightarrow> ('n, 'e, 'z) builder_state_scheme \<Rightarrow> ('n, 'e, 'z) builder_state_scheme" where
  "dispatch ev s = fold apply_action (handler_actions ev) s"

definition interact ::
  "'c event list \<Rightarrow> ('n, 'e, 'z) builder_state_scheme \<Rightarrow> ('n, 'e, 'z) builder_state_scheme" where
  "interact evs s = fold dispatch evs s"

text \<open>
  What the canvas shows is what \<open>ReactFlow\<close> is given: the \<open>nodes\<close> and \<open>edges\<close> props
  of every \<open>ReactFlow\<close> element of a tree, in document order.
\<close>

fun canvas_graphs :: "('n, 'e, 'c) element \<Rightarrow> ('n list \<times> 'e list) list" where
  "canvas_graphs (Tag name cls children) = concat (map canvas_graphs children)"
| "canvas_graphs (Text s) = []"
| "canvas_graphs (ReactFlow ns es on_nodes on_edges cls fit children) =
     (ns, es) # concat (map canvas_graphs children)"
| "canvas_graphs Background = []"
| "canvas_graphs Controls = []"
| "canvas_graphs MiniMap = []"

text \<open>
  The identity of the handlers. In JavaScript an arrow-function expression evaluates to
  a new function object every time it is evaluated, and a function object is equal
  only to itself. The two handler props of \<open>ReactFlow\<close> are such expressions, so every
  render creates two function objects. The store of function objects is the list of the
  functions created so far; the reference of an object is its position in the list, and
  a new object is put at the end.

  Evaluating an element tree gives the tree in which every handler prop is the
  reference of its function object, and the store after the evaluation. The props of an
  element are evaluated before its children, as the compiled JSX does.
\<close>

type_synonym ('n, 'e, 'c) function_store = "('c \<Rightarrow> ('n, 'e) action list) list"

datatype ('n, 'e) rendered =
    RTag string string "('n, 'e) rendered list"
  | RText string
  | RReactFlow "'n list" "'e list" nat nat string bool "('n, 'e) rendered list"
  | RBackground
  | RControls
  | RMiniMap

fun evaluate ::
    "('n, 'e, 'c) element \<Rightarrow> ('n, 'e, 'c) function_store
       \<Rightarrow> ('n, 'e) rendered \<times> ('n, 'e, 'c) function_store"
  and evaluate_children ::
    "('n, 'e, 'c) element list \<Rightarrow> ('n, 'e, 'c) function_store
       \<Rightarrow> ('n, 'e) rendered list \<times> ('n, 'e, 'c) function_store"
where
  "evaluate (Tag name cls children) st =
     (case evaluate_children children st of (ks, st') \<Rightarrow> (RTag name cls ks, st'))"
| "evaluate (Text s) st = (RText s, st)"
| "evaluate (ReactFlow ns es on_nodes on_edges cls fit children) st =
     (case evaluate_children children (st @ [on_nodes, on_edges]) of
        (ks, st') \<Rightarrow> (RReactFlow ns es (length st) (Suc (length st)) cls fit ks, st'))"
| "evaluate Background st = (RBackground, st)"
| "evaluate Controls st = (RControls, st)"
| "evaluate MiniMap st = (RMiniMap, st)"
| "evaluate_children [] st = ([], st)"
| "evaluate_children (x # xs) st =
     (case evaluate x st of
        (k, st') \<Rightarrow> (case evaluate_children xs st' of (ks, st'') \<Rightarrow> (k # ks, st'')))"





section \<open>The data model of the orchestration core\<close>

text \<open>
  Modelled from the spec: the repository holds no code of the orchestration core (its
  sources are the two components above and design documents), so the data model is the
  one of section 3 of the specification. A node has an identifier, a type tag from a
  closed set of kinds, a parameter mapping and a declared input and output arity; a
  connection joins an output port of its source to an input port of its target; a
  definition is an identifier, an ordered set of nodes, a set of connections and a
  schema version.
\<close>

datatype node_kind = Trigger | Action | Conditional | Loop

record 'id node =
  node_id :: 'id
  kind :: node_kind
  parameters :: "(string \<times> string) list"
  inputs :: nat
  outputs :: nat

record 'id connection =
  sourceNodeId :: 'id
  sourceOutputIndex :: nat
  targetNodeId :: 'id
  targetInputIndex :: nat

record 'id workflow_definition =
  workflow_id :: string
  wf_nodes :: "'id node list"
  connections :: "'id connection list"
  schema_version :: nat

text \<open>
  Modelled from the spec: a validation report is an ordered list of findings, each with
  a field reference, a severity and a message (section 3). The field reference of a
  finding about the graph is the list of node ids the finding is about.
\<close>

datatype severity = SeverityError | SeverityWarning | SeverityInfo

datatype 'id field_ref =
    ConnectionField nat string
  | NodeField 'id string
  | GraphField "'id list"

record 'id finding =
  fieldRef :: "'id field_ref"
  severity :: severity
  message :: string

type_synonym 'id validation_report = "'id finding list"

text \<open>
  Modelled from the spec: the error taxonomy of section 7, and the execution context of
  section 3 with its five statuses, its per-node result mapping (an output value or an
  error; a node of a skipped branch is marked so), its variable scope, its timestamps
  and its retry counters per node.
\<close>

datatype integration_class = Transient | Permanent

datatype error_kind =
    ValidationError
  | NodeExecutionError
  | IntegrationError integration_class
  | TimeoutError
  | SystemError

record failure =
  error_kind :: error_kind
  error_message :: string

datatype execution_status =
  StatusPending | StatusRunning | StatusSuccess | StatusError | StatusCancelled

datatype 'v node_result = Output 'v | Failed failure | Skipped

record ('id, 'v) execution_context =
  executionId :: nat
  workflowId :: string
  status :: execution_status
  results :: "'id \<rightharpoonup> 'v node_result"
  variables :: "string \<rightharpoonup> 'v"
  startedAt :: nat
  endedAt :: "nat option"
  retryCounters :: "'id \<Rightarrow> nat"

section \<open>The Validation Engine\<close>

text \<open>
  Modelled from the spec: \<open>validate(definition) -> ValidationReport\<close> of section 4.1,
  which the repository does not implement. The checks run in the order the
  specification lists them, and the report is their findings in that order. The two
  tables the checks consult, the required fields of a node kind and the compatibility
  of the payloads of two ports, are not given by the specification and are parameters.
\<close>

record registry =
  required_fields :: "node_kind \<Rightarrow> string list"
  payload_compatible :: "node_kind \<Rightarrow> nat \<Rightarrow> node_kind \<Rightarrow> nat \<Rightarrow> bool"

definition find_node :: "'id workflow_definition \<Rightarrow> 'id \<Rightarrow> 'id node option" where
  "find_node d v = find (\<lambda>n. node_id n = v) (wf_nodes d)"

definition successors :: "'id workflow_definition \<Rightarrow> 'id \<Rightarrow> 'id list" where
  "successors d v = map targetNodeId (filter (\<lambda>c. sourceNodeId c = v) (connections d))"

definition error_finding :: "'id field_ref \<Rightarrow> string \<Rightarrow> 'id finding" where
  "error_finding r m = \<lparr>fieldRef = r, severity = SeverityError, message = m\<rparr>"

text \<open>
  Modelled from the spec: check (a) of section 4.1, every connection references
  existing node ids and in-range port indices. A connection is referred to by its
  position in the definition.
\<close>

definition check_endpoint ::
  "'id workflow_definition \<Rightarrow> nat \<Rightarrow> string \<Rightarrow> 'id \<Rightarrow> nat \<Rightarrow> ('id node \<Rightarrow> nat)
     \<Rightarrow> 'id validation_report" where
  "check_endpoint d i name v port arity =
     (case find_node d v of
        None \<Rightarrow> [error_finding (ConnectionField i name) ''unknown node id'']
      | Some n \<Rightarrow>
          if port < arity n then []
          else [error_finding (ConnectionField i name) ''port index out of range''])"

definition check_connection ::
  "'id workflow_definition \<Rightarrow> nat \<times> 'id connection \<Rightarrow> 'id validation_report" where
  "check_connection d ic =
     (case ic of (i, c) \<Rightarrow>
        check_endpoint d i ''source'' (sourceNodeId c) (sourceOutputIndex c) outputs
        @ check_endpoint d i ''target'' (targetNodeId c) (targetInputIndex c) inputs)"

definition check_references :: "'id workflow_definition \<Rightarrow> 'id validation_report" where
  "check_references d = concat (map (check_connection d) (enumerate 0 (connections d)))"

text \<open>
  Modelled from the spec: check (b) of section 4.1, every node's parameters satisfy the
  required-field schema of its kind.
\<close>

definition check_node_parameters :: "registry \<Rightarrow> 'id node \<Rightarrow> 'id validation_report" where
  "check_node_parameters reg n =
     map (\<lambda>f. error_finding (NodeField (node_id n) f) ''required parameter missing'')
       (filter (\<lambda>f. f \<notin> set (map fst (parameters n))) (required_fields reg (kind n)))"

definition check_parameters ::
  "registry \<Rightarrow> 'id workflow_definition \<Rightarrow> 'id validation_report" where
  "check_parameters reg d = concat (map (check_node_parameters reg) (wf_nodes d))"

text \<open>
  Modelled from the spec: check (c) of section 4.1, connected ports carry
  type-compatible payloads, per the kinds of the producing and the consuming node. A
  connection with a missing endpoint is the business of check (a).
\<close>

definition check_payload ::
  "registry \<Rightarrow> 'id workflow_definition \<Rightarrow> nat \<times> 'id connection \<Rightarrow> 'id validation_report"
where
  "check_payload reg d ic =
     (case ic of (i, c) \<Rightarrow>
        (case (find_node d (sourceNodeId c), find_node d (targetNodeId c)) of
           (Some s, Some t) \<Rightarrow>
             if payload_compatible reg (kind s) (sourceOutputIndex c) (kind t)
                  (targetInputIndex c)
             then []
             else [error_finding (ConnectionField i ''payload'') ''incompatible payload types'']
         | _ \<Rightarrow> []))"

definition check_payloads ::
  "registry \<Rightarrow> 'id workflow_definition \<Rightarrow> 'id validation_report" where
  "check_payloads reg d = concat (map (check_payload reg d) (enumerate 0 (connections d)))"

text \<open>
  Modelled from the spec: check (d) of section 4.1, the connection graph, excluding
  nodes whose kind declares loop semantics, contains no cycle. The graph under test has
  the node ids of the definition whose kind is not \<open>Loop\<close>; an id that no node carries
  is not in it either.
\<close>

definition in_cycle_graph :: "'id workflow_definition \<Rightarrow> 'id \<Rightarrow> bool" where
  "in_cycle_graph d v = (case find_node d v of None \<Rightarrow> False | Some n \<Rightarrow> kind n \<noteq> Loop)"

definition cycle_graph_ids :: "'id workflow_definition \<Rightarrow> 'id list" where
  "cycle_graph_ids d = filter (in_cycle_graph d) (map node_id (wf_nodes d))"

text \<open>
  Modelled from the spec: the traversal of check (d), depth first with three colours
  (unvisited, in progress, done). The in-progress nodes are kept as the path from the
  root of the traversal to the current node, newest first; the done nodes are kept in
  the order they were finished, newest first; every other node is unvisited. A
  successor that is in progress is a back edge and signals a cycle: the nodes on the
  path from that successor to the current node. The result is \<open>Inl\<close> of the cycle, or
  \<open>Inr\<close> of the done nodes.
\<close>

definition back_edge_cycle :: "'id list \<Rightarrow> 'id \<Rightarrow> 'id list" where
  "back_edge_cycle in_progress v = v # rev (takeWhile (\<lambda>u. u \<noteq> v) in_progress)"

function dfs ::
    "'id workflow_definition \<Rightarrow> 'id list \<Rightarrow> 'id list \<Rightarrow> 'id \<Rightarrow> 'id list + 'id list"
  and dfs_each ::
    "'id workflow_definition \<Rightarrow> 'id list \<Rightarrow> 'id list \<Rightarrow> 'id list \<Rightarrow> 'id list + 'id list"
where
  "dfs d in_progress finished v =
     (if \<not> in_cycle_graph d v then Inr finished
      else if v \<in> set in_progress then Inl (back_edge_cycle in_progress v)
      else if v \<in> set finished then Inr finished
      else (case dfs_each d (v # in_progress) finished (successors d v) of
              Inl cyc \<Rightarrow> Inl cyc
            | Inr finished' \<Rightarrow> Inr (v # finished')))"
| "dfs_each d in_progress finished [] = Inr finished"
| "dfs_each d in_progress finished (w # ws) =
     (case dfs d in_progress finished w of
        Inl cyc \<Rightarrow> Inl cyc
      | Inr finished' \<Rightarrow> dfs_each d in_progress finished' ws)"
  by pat_completeness auto

lemma in_cycle_graph_mem: "in_cycle_graph d v \<Longrightarrow> v \<in> set (cycle_graph_ids d)"
  by (auto simp: in_cycle_graph_def find_node_def cycle_graph_ids_def find_Some_iff
      split: option.splits)

text \<open>
  Every descent puts one more node of the graph in progress, and the graph is finite.
\<close>

termination dfs
  apply (relation "inv_image (less_than <*lex*> less_than)
    (\<lambda>x. case x of
        Inl (d, in_progress, finished, v) \<Rightarrow>
          (card (set (cycle_graph_ids d) - set in_progress), 0)
      | Inr (d, in_progress, finished, ws) \<Rightarrow>
          (card (set (cycle_graph_ids d) - set in_progress), Suc (length ws)))")
  subgoal by (intro wf_inv_image wf_lex_prod wf_less_than)
  subgoal for d in_progress finished v
    using psubset_card_mono [of "set (cycle_graph_ids d) - set in_progress"
        "set (cycle_graph_ids d) - set (v # in_progress)"]
    by (auto dest: in_cycle_graph_mem)
  subgoal by simp
  subgoal by simp
  done

definition check_cycles :: "'id workflow_definition \<Rightarrow> 'id validation_report" where
  "check_cycles d =
     (case dfs_each d [] [] (map node_id (wf_nodes d)) of
        Inl cyc \<Rightarrow> [error_finding (GraphField cyc) ''cycle among nodes without loop semantics'']
      | Inr finished \<Rightarrow> [])"

text \<open>
  Modelled from the spec: the last rule of section 4.1, unreachable nodes, those with
  no path from any node of kind \<open>Trigger\<close>, produce a warning. The reachable ids are
  collected by following the connections from the triggers, one more step per round,
  for as many rounds as the definition has nodes and connections: no shortest path is
  longer.
\<close>

definition reach_step :: "'id workflow_definition \<Rightarrow> 'id list \<Rightarrow> 'id list" where
  "reach_step d vs = remdups (vs @ concat (map (successors d) vs))"

definition reachable_from :: "'id workflow_definition \<Rightarrow> 'id list \<Rightarrow> 'id list" where
  "reachable_from d vs =
     ((reach_step d) ^^ (length (wf_nodes d) + length (connections d))) vs"

definition trigger_ids :: "'id workflow_definition \<Rightarrow> 'id list" where
  "trigger_ids d = map node_id (filter (\<lambda>n. kind n = Trigger) (wf_nodes d))"

definition check_unreachable :: "'id workflow_definition \<Rightarrow> 'id validation_report" where
  "check_unreachable d =
     map (\<lambda>n. \<lparr>fieldRef = GraphField [node_id n], severity = SeverityWarning,
               message = ''node is not reachable from any trigger''\<rparr>)
       (filter (\<lambda>n. node_id n \<notin> set (reachable_from d (trigger_ids d))) (wf_nodes d))"

definition validate :: "registry \<Rightarrow> 'id workflow_definition \<Rightarrow> 'id validation_report" where
  "validate reg d =
     check_references d @ check_parameters reg d @ check_payloads reg d
     @ check_cycles d @ check_unreachable d"

text \<open>Modelled from the spec: errors block execution; warnings do not (section 3).\<close>

definition has_errors :: "'id validation_report \<Rightarrow> bool" where
  "has_errors r = list_ex (\<lambda>f. severity f = SeverityError) r"

text \<open>
  Modelled from the spec: the participating node ids of a cycle among nodes without
  loop semantics, as a list: every id is a node of the graph under test, each id has a
  connection to the next, and the last has one back to the first.
\<close>

definition is_cycle :: "'id workflow_definition \<Rightarrow> 'id list \<Rightarrow> bool" where
  "is_cycle d c =
     (c \<noteq> [] \<and> list_all (in_cycle_graph d) c \<and>
      successively (\<lambda>x y. y \<in> set (successors d x)) c \<and>
      hd c \<in> set (successors d (last c)))"

subsection \<open>The graph under test and the invariants of its traversal\<close>

text \<open>
  Modelled from the spec: the connection graph of check (d), excluding nodes whose kind
  declares loop semantics, as a relation: a connection between two nodes of the graph
  under test. The graph contains a cycle when a node reaches itself over one or more
  such connections.
\<close>

definition graph_edges :: "'id workflow_definition \<Rightarrow> ('id \<times> 'id) set" where
  "graph_edges d =
     {(x, y). in_cycle_graph d x \<and> in_cycle_graph d y \<and> y \<in> set (successors d x)}"

text \<open>
  The in-progress nodes form a path of the graph under test: each was reached over a
  connection from the one below it.
\<close>

definition path_stack :: "'id workflow_definition \<Rightarrow> 'id list \<Rightarrow> bool" where
  "path_stack d in_progress =
     (list_all (in_cycle_graph d) in_progress \<and>
      successively (\<lambda>newer older. newer \<in> set (successors d older)) in_progress)"

text \<open>
  The done nodes are in finishing order: every successor of a done node that lies in
  the graph under test was finished before it.
\<close>

fun finish_order :: "'id workflow_definition \<Rightarrow> 'id list \<Rightarrow> bool" where
  "finish_order d [] = True"
| "finish_order d (x # t) =
     ((\<forall>w \<in> set (successors d x). in_cycle_graph d w \<longrightarrow> w \<in> set t) \<and> finish_order d t)"

section \<open>Submission to the Execution Engine\<close>

text \<open>
  Modelled from the spec: the Submit API of sections 4.2 and 6, which the repository
  does not implement. It accepts a definition, an initial input and the execution
  options, and returns an execution id, or the validation report on rejection.
  Validation errors stop before any execution state is created (section 7); an
  accepted definition gets a fresh execution context in status \<open>pending\<close>.
\<close>

datatype fallback_policy = FailFast | PartialSuccess

record execution_options =
  timeout :: nat
  maxRetries :: nat
  maxConcurrency :: nat
  fallback :: fallback_policy

record ('id, 'v) engine =
  executions :: "nat \<rightharpoonup> ('id, 'v) execution_context"
  nextExecutionId :: nat

definition new_context ::
  "nat \<Rightarrow> 'id workflow_definition \<Rightarrow> 'v \<Rightarrow> nat \<Rightarrow> ('id, 'v) execution_context" where
  "new_context eid d input now =
     \<lparr>executionId = eid, workflowId = workflow_id d, status = StatusPending,
      results = Map.empty, variables = [''input'' \<mapsto> input],
      startedAt = now, endedAt = None, retryCounters = (\<lambda>n. 0)\<rparr>"

definition submit ::
  "registry \<Rightarrow> 'id workflow_definition \<Rightarrow> 'v \<Rightarrow> execution_options \<Rightarrow> nat
     \<Rightarrow> ('id, 'v) engine \<Rightarrow> ('id validation_report + nat) \<times> ('id, 'v) engine" where
  "submit reg d input opts now eng =
     (let report = validate reg d in
      if has_errors report then (Inl report, eng)
      else (Inr (nextExecutionId eng),
            eng\<lparr>executions :=
                  (executions eng)(nextExecutionId eng \<mapsto>
                     new_context (nextExecutionId eng) d input now),
                nextExecutionId := Suc (nextExecutionId eng)\<rparr>))"

section \<open>The Retry / Circuit-Breaker Controller\<close>

subsection \<open>The circuit of an integration target\<close>

text \<open>
  Modelled from the spec: the circuit state of section 3 (closed, open or half-open,
  with the failure count, the threshold and the cool-down deadline) and its transitions
  in section 4.3, which the repository does not implement. The length of the cool-down
  is part of the state, since a failed trial restarts it, and so is the mark that the
  trial call of a half-open circuit is under way. Time is a count of time units.
\<close>

datatype circuit_mode = Closed | Open | HalfOpen

record circuit_state =
  mode :: circuit_mode
  failureCount :: nat
  threshold :: nat
  cooldown :: nat
  deadline :: nat
  trialInFlight :: bool

datatype admission = Admitted | Rejected

text \<open>
  Modelled from the spec: before a call, a closed circuit lets it through. An open
  circuit fails it at once until the cool-down deadline has passed; then the circuit
  becomes half-open and lets this one call through as the trial. A half-open circuit
  whose trial is under way fails every other call.
\<close>

definition admit :: "nat \<Rightarrow> circuit_state \<Rightarrow> admission \<times> circuit_state" where
  "admit now c =
     (case mode c of
        Closed \<Rightarrow> (Admitted, c)
      | Open \<Rightarrow>
          if now < deadline c then (Rejected, c)
          else (Admitted, c\<lparr>mode := HalfOpen, trialInFlight := True\<rparr>)
      | HalfOpen \<Rightarrow>
          if trialInFlight c then (Rejected, c)
          else (Admitted, c\<lparr>trialInFlight := True\<rparr>))"

text \<open>
  Modelled from the spec: after a call that was let through, in a closed circuit a
  success resets the counter and a failure increments it, and reaching the threshold
  opens the circuit until \<open>now + cooldown\<close>. The success of the trial closes the
  circuit and resets the counter; its failure reopens the circuit and restarts the
  cool-down. The outcome of a call that was let through before the circuit opened does
  not change an open circuit.
\<close>

definition report :: "bool \<Rightarrow> nat \<Rightarrow> circuit_state \<Rightarrow> circuit_state" where
  "report ok now c =
     (case mode c of
        Closed \<Rightarrow>
          if ok then c\<lparr>failureCount := 0\<rparr>
          else if threshold c \<le> Suc (failureCount c)
          then c\<lparr>mode := Open, failureCount := Suc (failureCount c),
                 deadline := now + cooldown c\<rparr>
          else c\<lparr>failureCount := Suc (failureCount c)\<rparr>
      | HalfOpen \<Rightarrow>
          if ok then c\<lparr>mode := Closed, failureCount := 0, trialInFlight := False\<rparr>
          else c\<lparr>mode := Open, deadline := now + cooldown c, trialInFlight := False\<rparr>
      | Open \<Rightarrow> c)"

text \<open>
  Modelled from the spec: the controller keeps one circuit per target, shared by all
  executions (section 5), and the model keeps the list of the network operations that
  were attempted, each with its target and its time. A call is let through, and then
  attempts the network operation, or is failed at once (\<open>begin_call\<close>); a call that was
  let through reports its outcome when it ends (\<open>end_call\<close>). \<open>guarded_call\<close> is a call
  that ends before the next one begins; the answer the network would give is part of
  the input.
\<close>

record 't controller =
  circuits :: "'t \<Rightarrow> circuit_state"
  attempted :: "('t \<times> nat) list"

definition begin_call :: "'t \<Rightarrow> nat \<Rightarrow> 't controller \<Rightarrow> admission \<times> 't controller" where
  "begin_call t now s =
     (case admit now (circuits s t) of
        (Rejected, c) \<Rightarrow> (Rejected, s\<lparr>circuits := (circuits s)(t := c)\<rparr>)
      | (Admitted, c) \<Rightarrow>
          (Admitted, s\<lparr>circuits := (circuits s)(t := c), attempted := attempted s @ [(t, now)]\<rparr>))"

definition end_call :: "'t \<Rightarrow> bool \<Rightarrow> nat \<Rightarrow> 't controller \<Rightarrow> 't controller" where
  "end_call t ok now s = s\<lparr>circuits := (circuits s)(t := report ok now (circuits s t))\<rparr>"

datatype 'r call_result = FailedFast | Completed "failure + 'r"

definition guarded_call ::
  "'t \<Rightarrow> nat \<Rightarrow> failure + 'r \<Rightarrow> 't controller \<Rightarrow> 'r call_result \<times> 't controller" where
  "guarded_call t now answer s =
     (case begin_call t now s of
        (Rejected, s') \<Rightarrow> (FailedFast, s')
      | (Admitted, s') \<Rightarrow> (Completed answer, end_call t (\<not> isl answer) now s'))"

fun guarded_calls ::
  "'t \<Rightarrow> (nat \<times> (failure + 'r)) list \<Rightarrow> 't controller
     \<Rightarrow> 'r call_result list \<times> 't controller" where
  "guarded_calls t [] s = ([], s)"
| "guarded_calls t ((now, answer) # rest) s =
     (case guarded_call t now answer s of
        (r, s') \<Rightarrow> apfst (\<lambda>rs. r # rs) (guarded_calls t rest s'))"

section \<open>Example inputs\<close>

text \<open>
  A registry that asks for no parameter and accepts every payload, nodes and
  connections with one port on each side, and a definition in which \<open>b\<close> and \<open>c\<close>,
  both actions, feed each other.
\<close>

definition permissive_registry :: registry where
  "permissive_registry =
     \<lparr>required_fields = (\<lambda>k. []), payload_compatible = (\<lambda>k i k' j. True)\<rparr>"

definition plain_node :: "'id \<Rightarrow> node_kind \<Rightarrow> 'id node" where
  "plain_node v k = \<lparr>node_id = v, kind = k, parameters = [], inputs = 1, outputs = 1\<rparr>"

definition wire :: "'id \<Rightarrow> 'id \<Rightarrow> 'id connection" where
  "wire x y =
     \<lparr>sourceNodeId = x, sourceOutputIndex = 0, targetNodeId = y, targetInputIndex = 0\<rparr>"

definition cyclic_example :: "string workflow_definition" where
  "cyclic_example =
     \<lparr>workflow_id = ''w1'',
      wf_nodes = [plain_node ''a'' Trigger, plain_node ''b'' Action, plain_node ''c'' Action],
      connections = [wire ''a'' ''b'', wire ''b'' ''c'', wire ''c'' ''b''],
      schema_version = 1\<rparr>"

definition example_options :: "fallback_policy \<Rightarrow> execution_options" where
  "example_options fb = \<lparr>timeout = 60000, maxRetries = 3, maxConcurrency = 4, fallback = fb\<rparr>"

definition empty_engine :: "('id, 'v) engine" where
  "empty_engine = \<lparr>executions = Map.empty, nextExecutionId = 0\<rparr>"

text \<open>The failure of a call whose deadline expired.\<close>

definition timeout_failure :: failure where
  "timeout_failure = \<lparr>error_kind = TimeoutError, error_message = ''deadline exceeded''\<rparr>"

text \<open>
  A controller whose circuits are all closed with threshold 2 and a cool-down of 100 time
  units, two calls that fail at times 10 and 20, and the controller after them.
\<close>

definition fresh_controller :: "string controller" where
  "fresh_controller =
     \<lparr>circuits = (\<lambda>t. \<lparr>mode = Closed, failureCount = 0, threshold = 2, cooldown = 100,
                         deadline = 0, trialInFlight = False\<rparr>),
      attempted = []\<rparr>"

definition two_failures :: "(nat \<times> (failure + nat)) list" where
  "two_failures = [(10, Inl timeout_failure), (20, Inl timeout_failure)]"

definition tripped_controller :: "string controller" where
  "tripped_controller = snd (guarded_calls ''svc'' two_failures fresh_controller)"

section \<open>Properties of the canvas shell\<close>

lemma dispatch_id: "dispatch ev s = s"
  by (cases ev) (simp_all add: dispatch_def onNodesChange_def onEdgesChange_def)

lemma interact_id: "interact evs s = s"
  unfolding interact_def by (induction evs) (simp_all add: dispatch_id)

lemma canvas_graphs_App:
  "canvas_graphs (App s :: ('n, 'e, 'c) element) = [(nodes s, edges s)]"
  by (simp add: App_def WorkflowBuilder_def)

text \<open>
  C8. The initial canvas state is empty: both \<open>useState\<close> slots start as the empty
  list, and on the first render the one \<open>ReactFlow\<close> element of the tree is given the
  empty list of nodes and the empty list of edges.
\<close>

theorem initial_canvas_empty:
  "nodes initial_state = [] \<and> edges initial_state = [] \<and>
   canvas_graphs (WorkflowBuilder initial_state :: ('n, 'e, 'c) element) = [([], [])] \<and>
   canvas_graphs (App initial_state :: ('n, 'e, 'c) element) = [([], [])]"
  by (simp add: initial_state_def App_def WorkflowBuilder_def)

text \<open>
  C9. The node-change and edge-change handlers are no-ops: whatever sequence of change
  batches is delivered through \<open>onNodesChange\<close> and \<open>onEdgesChange\<close>, the state is the
  state before, so from the initial state the canvas graph stays empty.
\<close>

theorem handlers_are_noops:
  "interact evs s = s \<and>
   nodes (interact evs initial_state) = [] \<and> edges (interact evs initial_state) = [] \<and>
   canvas_graphs (App (interact evs initial_state) :: ('n, 'e, 'c) element) = [([], [])]"
  by (simp add: interact_id initial_state_def canvas_graphs_App)



section \<open>Properties of the Validation Engine\<close>

subsection \<open>A reported cycle is a cycle\<close>

lemma path_stack_Nil: "path_stack d []"
  by (simp add: path_stack_def)

lemma path_stack_push:
  assumes "path_stack d ip" "in_cycle_graph d v" "ip \<noteq> [] \<Longrightarrow> v \<in> set (successors d (hd ip))"
  shows "path_stack d (v # ip)"
  using assms by (cases ip) (auto simp: path_stack_def)

lemma split_at_first:
  assumes "v \<in> set xs"
  shows "\<exists>post. xs = takeWhile (\<lambda>u. u \<noteq> v) xs @ v # post"
proof -
  from assms have "dropWhile (\<lambda>u. u \<noteq> v) xs \<noteq> []" by (simp add: dropWhile_eq_Nil_conv)
  moreover from this have "hd (dropWhile (\<lambda>u. u \<noteq> v) xs) = v"
    using hd_dropWhile [of "\<lambda>u. u \<noteq> v" xs] by simp
  ultimately obtain post where "dropWhile (\<lambda>u. u \<noteq> v) xs = v # post"
    by (cases "dropWhile (\<lambda>u. u \<noteq> v) xs") auto
  with takeWhile_dropWhile_id [of "\<lambda>u. u \<noteq> v" xs]
  have "xs = takeWhile (\<lambda>u. u \<noteq> v) xs @ v # post" by simp
  then show ?thesis ..
qed

lemma back_edge_is_cycle:
  assumes ps: "path_stack d ip" and mem: "v \<in> set ip"
    and edge: "v \<in> set (successors d (hd ip))"
  shows "is_cycle d (back_edge_cycle ip v)"
proof -
  define pre where "pre = takeWhile (\<lambda>u. u \<noteq> v) ip"
  obtain post where ip: "ip = pre @ v # post"
    using split_at_first [OF mem] unfolding pre_def by blast
  have all: "list_all (in_cycle_graph d) (v # rev pre)"
    using ps unfolding path_stack_def ip by (auto simp: list_all_iff)
  have "successively (\<lambda>newer older. newer \<in> set (successors d older)) (pre @ [v])"
    using ps unfolding path_stack_def ip
    by (auto simp: successively_append_iff successively_Cons)
  then have "successively (\<lambda>x y. y \<in> set (successors d x)) (rev (pre @ [v]))"
    by (subst successively_rev) simp
  then have succ: "successively (\<lambda>x y. y \<in> set (successors d x)) (v # rev pre)"
    by simp
  have "last (v # rev pre) = hd ip"
    unfolding ip by (cases pre) (simp_all add: last_rev)
  then have close: "hd (v # rev pre) \<in> set (successors d (last (v # rev pre)))"
    using edge by simp
  show ?thesis
    unfolding is_cycle_def back_edge_cycle_def pre_def [symmetric]
    using all succ close by simp
qed

lemma dfs_sound:
  "dfs d ip fin v = Inl c \<Longrightarrow> path_stack d ip \<Longrightarrow>
     (ip \<noteq> [] \<Longrightarrow> v \<in> set (successors d (hd ip))) \<Longrightarrow> is_cycle d c"
  "dfs_each d ip fin ws = Inl c \<Longrightarrow> path_stack d ip \<Longrightarrow>
     (ip \<noteq> [] \<Longrightarrow> set ws \<subseteq> set (successors d (hd ip))) \<Longrightarrow> is_cycle d c"
proof (induction d ip fin v and d ip fin ws arbitrary: c and c rule: dfs_dfs_each.induct)
  case (1 d ip fin v)
  show ?case
  proof (cases "in_cycle_graph d v")
    case False
    with "1.prems"(1) show ?thesis by simp
  next
    case g: True
    show ?thesis
    proof (cases "v \<in> set ip")
      case True
      then have "ip \<noteq> []" by auto
      with "1.prems" g True show ?thesis
        by (auto intro: back_edge_is_cycle)
    next
      case nip: False
      show ?thesis
      proof (cases "v \<in> set fin")
        case True
        with "1.prems"(1) g nip show ?thesis by simp
      next
        case False
        with "1.prems"(1) g nip
        have rec: "dfs_each d (v # ip) fin (successors d v) = Inl c"
          by (simp split: sum.splits)
        have "path_stack d (v # ip)"
          using "1.prems" g by (intro path_stack_push) auto
        from "1.IH" [OF _ nip False rec this] g show ?thesis by simp
      qed
    qed
  qed
next
  case (2 d ip fin)
  then show ?case by simp
next
  case (3 d ip fin w ws)
  show ?case
  proof (cases "dfs d ip fin w")
    case (Inl c')
    with "3.prems"(1) have "c' = c" by simp
    with Inl "3.IH"(1) [of c] "3.prems" show ?thesis by auto
  next
    case (Inr fin')
    with "3.prems"(1) have "dfs_each d ip fin' ws = Inl c" by simp
    with "3.IH"(2) [OF Inr, of c] "3.prems" show ?thesis by auto
  qed
qed

subsection \<open>A traversal without a report leaves no cycle\<close>

lemma dfs_finish:
  "dfs d ip fin v = Inr fin' \<Longrightarrow> finish_order d fin \<Longrightarrow>
     finish_order d fin' \<and> set fin \<subseteq> set fin' \<and> (in_cycle_graph d v \<longrightarrow> v \<in> set fin')"
  "dfs_each d ip fin ws = Inr fin' \<Longrightarrow> finish_order d fin \<Longrightarrow>
     finish_order d fin' \<and> set fin \<subseteq> set fin' \<and>
     (\<forall>w \<in> set ws. in_cycle_graph d w \<longrightarrow> w \<in> set fin')"
proof (induction d ip fin v and d ip fin ws arbitrary: fin' and fin' rule: dfs_dfs_each.induct)
  case (1 d ip fin v)
  show ?case
  proof (cases "in_cycle_graph d v \<and> v \<notin> set ip \<and> v \<notin> set fin")
    case False
    with "1.prems" show ?thesis by (auto split: if_splits)
  next
    case True
    with "1.prems"(1) obtain f where rec: "dfs_each d (v # ip) fin (successors d v) = Inr f"
      and fin': "fin' = v # f"
      by (auto split: sum.splits)
    from True "1.IH" [OF _ _ _ rec "1.prems"(2)]
    have "finish_order d f \<and> set fin \<subseteq> set f \<and>
      (\<forall>w \<in> set (successors d v). in_cycle_graph d w \<longrightarrow> w \<in> set f)"
      by simp
    then show ?thesis unfolding fin' by auto
  qed
next
  case (2 d ip fin)
  then show ?case by simp
next
  case (3 d ip fin w ws)
  from "3.prems"(1) obtain f where first: "dfs d ip fin w = Inr f"
    and rest: "dfs_each d ip f ws = Inr fin'"
    by (auto split: sum.splits)
  from "3.IH"(1) [OF first "3.prems"(2)]
  have f: "finish_order d f" "set fin \<subseteq> set f" "in_cycle_graph d w \<longrightarrow> w \<in> set f"
    by simp_all
  from "3.IH"(2) [OF first rest f(1)]
  have "finish_order d fin'" "set f \<subseteq> set fin'"
    "\<forall>w \<in> set ws. in_cycle_graph d w \<longrightarrow> w \<in> set fin'"
    by simp_all
  with f show ?case by auto
qed

lemma finish_order_closed:
  "finish_order d t \<Longrightarrow> x \<in> set t \<Longrightarrow> (x, y) \<in> graph_edges d \<Longrightarrow> y \<in> set t"
  by (induction t) (auto simp: graph_edges_def)

lemma finish_order_closed_rtrancl:
  "(x, y) \<in> (graph_edges d)\<^sup>* \<Longrightarrow> finish_order d t \<Longrightarrow> x \<in> set t \<Longrightarrow> y \<in> set t"
  by (induction rule: rtrancl_induct) (auto dest: finish_order_closed)

lemma finish_order_acyclic:
  "finish_order d t \<Longrightarrow> x \<in> set t \<Longrightarrow> (x, x) \<notin> (graph_edges d)\<^sup>+"
proof (induction t)
  case Nil
  then show ?case by simp
next
  case (Cons a t)
  show ?case
  proof (cases "x \<in> set t")
    case True
    with Cons show ?thesis by simp
  next
    case False
    with Cons.prems have x: "x = a" by simp
    show ?thesis
    proof
      assume "(x, x) \<in> (graph_edges d)\<^sup>+"
      then obtain w where w: "(x, w) \<in> graph_edges d" "(w, x) \<in> (graph_edges d)\<^sup>*"
        by (auto dest: tranclD)
      from w(1) Cons.prems(1) x have "w \<in> set t"
        by (auto simp: graph_edges_def)
      with w(2) Cons.prems(1) have "x \<in> set t"
        by (auto dest: finish_order_closed_rtrancl)
      with False show False by simp
    qed
  qed
qed

lemma chain_rtrancl:
  "successively (\<lambda>x y. y \<in> set (successors d x)) c \<Longrightarrow> list_all (in_cycle_graph d) c \<Longrightarrow>
   c \<noteq> [] \<Longrightarrow> (hd c, last c) \<in> (graph_edges d)\<^sup>*"
proof (induction c rule: induct_list012)
  case (3 x y zs)
  then have "(x, y) \<in> graph_edges d" "(y, last (y # zs)) \<in> (graph_edges d)\<^sup>*"
    by (auto simp: graph_edges_def)
  then show ?case by (auto intro: converse_rtrancl_into_rtrancl)
qed simp_all

lemma is_cycle_trancl:
  assumes "is_cycle d c"
  shows "(hd c, hd c) \<in> (graph_edges d)\<^sup>+" and "in_cycle_graph d (hd c)"
proof -
  from assms have c: "c \<noteq> []" "list_all (in_cycle_graph d) c"
    "successively (\<lambda>x y. y \<in> set (successors d x)) c" "hd c \<in> set (successors d (last c))"
    by (simp_all add: is_cycle_def)
  from c(1,2) show g: "in_cycle_graph d (hd c)" by (cases c) simp_all
  from c(1,2) have "in_cycle_graph d (last c)" by (simp add: list_all_iff)
  with g c(4) have "(last c, hd c) \<in> graph_edges d" by (simp add: graph_edges_def)
  with chain_rtrancl [OF c(3,2,1)] show "(hd c, hd c) \<in> (graph_edges d)\<^sup>+"
    by (rule rtrancl_into_trancl1)
qed

lemma dfs_detects:
  assumes "(x, x) \<in> (graph_edges d)\<^sup>+"
  shows "\<exists>c'. dfs_each d [] [] (map node_id (wf_nodes d)) = Inl c' \<and> is_cycle d c'"
proof (cases "dfs_each d [] [] (map node_id (wf_nodes d))")
  case (Inl c')
  with dfs_sound(2) [OF Inl path_stack_Nil] show ?thesis by simp
next
  case (Inr fin)
  from dfs_finish(2) [OF Inr] have fo: "finish_order d fin"
    and all: "\<forall>w \<in> set (map node_id (wf_nodes d)). in_cycle_graph d w \<longrightarrow> w \<in> set fin"
    by simp_all
  from assms obtain w where "(x, w) \<in> graph_edges d" by (auto dest: tranclD)
  then have g: "in_cycle_graph d x" by (simp add: graph_edges_def)
  then have "x \<in> set (map node_id (wf_nodes d))"
    using in_cycle_graph_mem [of d x] by (simp add: cycle_graph_ids_def)
  with all g have "x \<in> set fin" by blast
  with finish_order_acyclic [OF fo this] assms show ?thesis by simp
qed

lemma check_cycles_reports:
  assumes "(x, x) \<in> (graph_edges d)\<^sup>+"
  shows "\<exists>c'. is_cycle d c' \<and>
    check_cycles d = [error_finding (GraphField c') ''cycle among nodes without loop semantics'']"
  using dfs_detects [OF assms] by (auto simp: check_cycles_def)

text \<open>
  C1. A definition whose connection graph has a cycle among nodes without loop
  semantics (some such node reaches itself over one or more connections between such
  nodes) is rejected: the report of \<open>validate\<close> holds an error finding whose field
  reference lists the node ids of such a cycle, and \<open>submit\<close> answers with that report
  and leaves the engine as it was, whatever its state, so no execution is created.
\<close>

theorem cycle_is_rejected:
  assumes "(x, x) \<in> (graph_edges d)\<^sup>+"
  shows "(\<exists>f \<in> set (validate reg d). \<exists>c'.
            severity f = SeverityError \<and> fieldRef f = GraphField c' \<and> is_cycle d c') \<and>
         submit reg d input opts now eng = (Inl (validate reg d), eng)"
proof -
  from check_cycles_reports [OF assms] obtain c' where c': "is_cycle d c'"
    and rep: "check_cycles d =
      [error_finding (GraphField c') ''cycle among nodes without loop semantics'']"
    by blast
  define f where "f = error_finding (GraphField c') ''cycle among nodes without loop semantics''"
  have mem: "f \<in> set (validate reg d)"
    by (simp add: validate_def rep f_def)
  have sev: "severity f = SeverityError" and fld: "fieldRef f = GraphField c'"
    by (simp_all add: error_finding_def f_def)
  from mem sev have "has_errors (validate reg d)"
    unfolding has_errors_def list_ex_iff by blast
  then have "submit reg d input opts now eng = (Inl (validate reg d), eng)"
    by (simp add: submit_def)
  with mem sev fld c' show ?thesis by blast
qed

theorem cycle_is_rejected_witness:
  "(''b'', ''b'') \<in> (graph_edges cyclic_example)\<^sup>+ \<and>
   (\<exists>f \<in> set (validate permissive_registry cyclic_example). \<exists>c'.
      severity f = SeverityError \<and> fieldRef f = GraphField c' \<and> is_cycle cyclic_example c') \<and>
   submit permissive_registry cyclic_example (0::nat) (example_options FailFast) 0 empty_engine
     = (Inl (validate permissive_registry cyclic_example), empty_engine)"
proof -
  have "is_cycle cyclic_example [''b'', ''c'']"
    by (simp add: is_cycle_def cyclic_example_def in_cycle_graph_def find_node_def
        successors_def plain_node_def wire_def)
  from is_cycle_trancl(1) [OF this]
  have h: "(''b'', ''b'') \<in> (graph_edges cyclic_example)\<^sup>+" by simp
  from cycle_is_rejected [OF h, where reg = permissive_registry and input = "0::nat"
      and opts = "example_options FailFast" and now = 0 and eng = empty_engine]
  show ?thesis using h by simp
qed

section \<open>Properties of the circuit breaker\<close>

lemma guarded_calls_append:
  "guarded_calls t (xs @ ys) s =
     (fst (guarded_calls t xs s) @ fst (guarded_calls t ys (snd (guarded_calls t xs s))),
      snd (guarded_calls t ys (snd (guarded_calls t xs s))))"
  by (induction xs arbitrary: s) (auto split: prod.splits)

lemma closed_failure_below:
  assumes "mode (circuits s t) = Closed" "isl a"
    "Suc (failureCount (circuits s t)) < threshold (circuits s t)"
  shows "guarded_call t u a s =
    (Completed a,
     s\<lparr>circuits := (circuits s)(t := (circuits s t)\<lparr>failureCount := Suc (failureCount (circuits s t))\<rparr>),
       attempted := attempted s @ [(t, u)]\<rparr>)"
  using assms by (simp add: guarded_call_def begin_call_def admit_def end_call_def report_def)

lemma closed_failure_reaching:
  assumes "mode (circuits s t) = Closed" "isl a"
    "threshold (circuits s t) \<le> Suc (failureCount (circuits s t))"
  shows "guarded_call t u a s =
    (Completed a,
     s\<lparr>circuits := (circuits s)(t := (circuits s t)\<lparr>mode := Open,
          failureCount := Suc (failureCount (circuits s t)),
          deadline := u + cooldown (circuits s t)\<rparr>),
       attempted := attempted s @ [(t, u)]\<rparr>)"
  using assms by (simp add: guarded_call_def begin_call_def admit_def end_call_def report_def)

lemma failures_below_threshold:
  assumes "mode (circuits s t) = Closed" "\<forall>(u, a) \<in> set fs. isl a"
    and "failureCount (circuits s t) + length fs < threshold (circuits s t)"
  shows "circuits (snd (guarded_calls t fs s)) t =
      (circuits s t)\<lparr>failureCount := failureCount (circuits s t) + length fs\<rparr>"
  using assms
proof (induction fs arbitrary: s)
  case Nil
  then show ?case by simp
next
  case (Cons f fs)
  obtain u a where f: "f = (u, a)" by (cases f)
  define s' where "s' = s\<lparr>circuits := (circuits s)(t := (circuits s t)\<lparr>failureCount := Suc (failureCount (circuits s t))\<rparr>),
       attempted := attempted s @ [(t, u)]\<rparr>"
  from Cons.prems f have step: "guarded_call t u a s = (Completed a, s')"
    unfolding s'_def by (intro closed_failure_below) simp_all
  have "circuits (snd (guarded_calls t fs s')) t =
      (circuits s' t)\<lparr>failureCount := failureCount (circuits s' t) + length fs\<rparr>"
    using Cons.prems by (intro Cons.IH) (simp_all add: s'_def)
  then show ?case
    using step by (simp add: f s'_def)
qed

lemma threshold_opens:
  assumes closed: "mode (circuits s t) = Closed" and zero: "failureCount (circuits s t) = 0"
    and pos: "0 < threshold (circuits s t)" and len: "length fs = threshold (circuits s t)"
    and fail: "\<forall>(u, a) \<in> set fs. isl a"
  shows "circuits (snd (guarded_calls t fs s)) t =
      (circuits s t)\<lparr>mode := Open, failureCount := threshold (circuits s t),
         deadline := fst (last fs) + cooldown (circuits s t)\<rparr>"
proof -
  from pos len have ne: "fs \<noteq> []" by auto
  obtain u a where lst: "last fs = (u, a)" by (cases "last fs")
  with ne have fs: "fs = butlast fs @ [(u, a)]" by (metis append_butlast_last_id)
  from fail ne lst have a: "isl a" using last_in_set [OF ne] by auto
  from fail have fail': "\<forall>(u, a) \<in> set (butlast fs). isl a"
    by (auto dest: in_set_butlastD)
  define s' where "s' = snd (guarded_calls t (butlast fs) s)"
  have below: "circuits s' t = (circuits s t)\<lparr>failureCount := length (butlast fs)\<rparr>"
    unfolding s'_def
    using failures_below_threshold [OF closed fail'] zero len ne pos by simp
  have "snd (guarded_calls t (butlast fs @ [(u, a)]) s) = snd (guarded_call t u a s')"
    by (simp add: guarded_calls_append s'_def split: prod.splits)
  with fs have "snd (guarded_calls t fs s) = snd (guarded_call t u a s')" by simp
  moreover have "guarded_call t u a s' =
    (Completed a,
     s'\<lparr>circuits := (circuits s')(t := (circuits s' t)\<lparr>mode := Open,
          failureCount := Suc (failureCount (circuits s' t)),
          deadline := u + cooldown (circuits s' t)\<rparr>),
       attempted := attempted s' @ [(t, u)]\<rparr>)"
    using closed len ne a by (intro closed_failure_reaching) (simp_all add: below)
  ultimately show ?thesis
    using len ne pos by (simp add: below lst)
qed

lemma open_rejects:
  assumes "mode (circuits s t) = Open" "u < deadline (circuits s t)"
  shows "begin_call t u s = (Rejected, s)" "guarded_call t u a s = (FailedFast, s)"
  using assms by (simp_all add: guarded_call_def begin_call_def admit_def)

lemma open_rejects_all:
  assumes "mode (circuits s t) = Open" "\<forall>(u, a) \<in> set calls. u < deadline (circuits s t)"
  shows "guarded_calls t calls s = (replicate (length calls) FailedFast, s)"
  using assms by (induction calls) (auto simp: open_rejects)

lemma open_admits_trial:
  assumes "mode (circuits s t) = Open" "deadline (circuits s t) \<le> u"
  shows "begin_call t u s =
    (Admitted, s\<lparr>circuits := (circuits s)(t := (circuits s t)\<lparr>mode := HalfOpen, trialInFlight := True\<rparr>),
                 attempted := attempted s @ [(t, u)]\<rparr>)"
  using assms by (simp add: begin_call_def admit_def)

lemma trial_in_flight_rejects:
  assumes "mode (circuits s t) = HalfOpen" "trialInFlight (circuits s t)"
  shows "begin_call t u s = (Rejected, s)" "guarded_call t u a s = (FailedFast, s)"
  using assms by (simp_all add: guarded_call_def begin_call_def admit_def)

lemma trial_outcome:
  assumes "mode (circuits s t) = HalfOpen"
  shows "circuits (end_call t True w s) t =
      (circuits s t)\<lparr>mode := Closed, failureCount := 0, trialInFlight := False\<rparr>"
    and "circuits (end_call t False w s) t =
      (circuits s t)\<lparr>mode := Open, deadline := w + cooldown (circuits s t), trialInFlight := False\<rparr>"
  using assms by (simp_all add: end_call_def report_def)

text \<open>
  C4. For every target whose circuit is closed with no failure counted: after as many
  consecutive failed calls as the threshold (at least one), the circuit is open, with the
  deadline one cool-down after the last failure. Every series of calls before the
  deadline fails at once and leaves the controller as it was, so no network operation is
  attempted. The first call at or after the deadline is let through as the trial and
  the circuit is half-open; while the trial is under way every other call is failed at
  once, so exactly one trial is permitted. The success of the trial closes the circuit
  and resets the counter; its failure reopens the circuit with a new deadline one
  cool-down later.
\<close>

theorem circuit_opens_and_recovers:
  fixes s :: "'t controller" and fs :: "(nat \<times> (failure + 'r)) list"
  assumes closed: "mode (circuits s t) = Closed" and zero: "failureCount (circuits s t) = 0"
    and pos: "0 < threshold (circuits s t)" and len: "length fs = threshold (circuits s t)"
    and fail: "\<forall>(u, a) \<in> set fs. isl a"
  defines "s1 \<equiv> snd (guarded_calls t fs s)"
  shows "mode (circuits s1 t) = Open \<and>
    deadline (circuits s1 t) = fst (last fs) + cooldown (circuits s t) \<and>
    (\<forall>calls :: (nat \<times> (failure + 'r)) list.
       (\<forall>(u, a) \<in> set calls. u < deadline (circuits s1 t)) \<longrightarrow>
       guarded_calls t calls s1 = (replicate (length calls) FailedFast, s1)) \<and>
    (\<forall>u. deadline (circuits s1 t) \<le> u \<longrightarrow>
       (\<exists>s2. begin_call t u s1 = (Admitted, s2) \<and>
          attempted s2 = attempted s1 @ [(t, u)] \<and>
          mode (circuits s2 t) = HalfOpen \<and>
          (\<forall>u' (a :: failure + 'r).
             begin_call t u' s2 = (Rejected, s2) \<and> guarded_call t u' a s2 = (FailedFast, s2)) \<and>
          (\<forall>w. mode (circuits (end_call t True w s2) t) = Closed \<and>
               failureCount (circuits (end_call t True w s2) t) = 0 \<and>
               mode (circuits (end_call t False w s2) t) = Open \<and>
               deadline (circuits (end_call t False w s2) t) = w + cooldown (circuits s t))))"
proof -
  have c1: "circuits s1 t =
      (circuits s t)\<lparr>mode := Open, failureCount := threshold (circuits s t),
         deadline := fst (last fs) + cooldown (circuits s t)\<rparr>"
    unfolding s1_def by (rule threshold_opens [OF closed zero pos len fail])
  then have op: "mode (circuits s1 t) = Open"
    and dl: "deadline (circuits s1 t) = fst (last fs) + cooldown (circuits s t)"
    and cd: "cooldown (circuits s1 t) = cooldown (circuits s t)"
    by simp_all
  have rej: "\<forall>calls :: (nat \<times> (failure + 'r)) list.
       (\<forall>(u, a) \<in> set calls. u < deadline (circuits s1 t)) \<longrightarrow>
       guarded_calls t calls s1 = (replicate (length calls) FailedFast, s1)"
    using open_rejects_all [OF op] by blast
  have trial: "\<exists>s2. begin_call t u s1 = (Admitted, s2) \<and>
          attempted s2 = attempted s1 @ [(t, u)] \<and>
          mode (circuits s2 t) = HalfOpen \<and>
          (\<forall>u' (a :: failure + 'r).
             begin_call t u' s2 = (Rejected, s2) \<and> guarded_call t u' a s2 = (FailedFast, s2)) \<and>
          (\<forall>w. mode (circuits (end_call t True w s2) t) = Closed \<and>
               failureCount (circuits (end_call t True w s2) t) = 0 \<and>
               mode (circuits (end_call t False w s2) t) = Open \<and>
               deadline (circuits (end_call t False w s2) t) = w + cooldown (circuits s t))"
    if u: "deadline (circuits s1 t) \<le> u" for u
  proof -
    define s2 where "s2 = s1\<lparr>circuits := (circuits s1)(t := (circuits s1 t)\<lparr>mode := HalfOpen, trialInFlight := True\<rparr>),
                 attempted := attempted s1 @ [(t, u)]\<rparr>"
    have b: "begin_call t u s1 = (Admitted, s2)"
      unfolding s2_def by (rule open_admits_trial [OF op u])
    have h: "mode (circuits s2 t) = HalfOpen" "trialInFlight (circuits s2 t)"
      "cooldown (circuits s2 t) = cooldown (circuits s t)"
      by (simp_all add: cd s2_def)
    have a: "attempted s2 = attempted s1 @ [(t, u)]" by (simp add: s2_def)
    have r1: "begin_call t u' s2 = (Rejected, s2)" for u'
      by (rule trial_in_flight_rejects(1) [OF h(1,2)])
    have r2: "guarded_call t u' a s2 = (FailedFast, s2)" for u' and a :: "failure + 'r"
      by (rule trial_in_flight_rejects(2) [OF h(1,2)])
    from b a h(1) r1 r2 trial_outcome [OF h(1)] h(3)
    show ?thesis by (intro exI [of _ s2]) simp
  qed
  from op dl rej trial show ?thesis by blast
qed


theorem circuit_opens_and_recovers_witness:
  "mode (circuits fresh_controller ''svc'') = Closed \<and>
   length two_failures = threshold (circuits fresh_controller ''svc'') \<and>
   mode (circuits tripped_controller ''svc'') = Open \<and>
   deadline (circuits tripped_controller ''svc'') = 120 \<and>
   attempted tripped_controller = [(''svc'', 10), (''svc'', 20)] \<and>
   guarded_calls ''svc'' [(50, Inr (1::nat)), (119, Inr 2)] tripped_controller
     = ([FailedFast, FailedFast], tripped_controller) \<and>
   fst (begin_call ''svc'' 120 tripped_controller) = Admitted \<and>
   mode (circuits (snd (begin_call ''svc'' 120 tripped_controller)) ''svc'') = HalfOpen \<and>
   fst (begin_call ''svc'' 125 (snd (begin_call ''svc'' 120 tripped_controller))) = Rejected \<and>
   mode (circuits (end_call ''svc'' True 130 (snd (begin_call ''svc'' 120 tripped_controller)))
           ''svc'') = Closed \<and>
   failureCount (circuits (end_call ''svc'' True 130
           (snd (begin_call ''svc'' 120 tripped_controller))) ''svc'') = 0 \<and>
   mode (circuits (end_call ''svc'' False 130 (snd (begin_call ''svc'' 120 tripped_controller)))
           ''svc'') = Open \<and>
   deadline (circuits (end_call ''svc'' False 130
           (snd (begin_call ''svc'' 120 tripped_controller))) ''svc'') = 230"
proof -
  have h: "mode (circuits fresh_controller ''svc'') = Closed"
    "failureCount (circuits fresh_controller ''svc'') = 0"
    "0 < threshold (circuits fresh_controller ''svc'')"
    "length two_failures = threshold (circuits fresh_controller ''svc'')"
    "\<forall>(u, a) \<in> set two_failures. isl a"
    by (simp_all add: fresh_controller_def two_failures_def)
  note T = circuit_opens_and_recovers [OF h, folded tripped_controller_def]
  have cd: "cooldown (circuits fresh_controller ''svc'') = 100"
    "fst (last two_failures) = 20"
    by (simp_all add: fresh_controller_def two_failures_def)
  from T have op: "mode (circuits tripped_controller ''svc'') = Open"
    and dl: "deadline (circuits tripped_controller ''svc'') = 120"
    by (simp_all add: cd)
  have "\<forall>(u, a) \<in> set [(50, Inr 1), (119, Inr (2::nat)) :: nat \<times> (failure + nat)].
        u < deadline (circuits tripped_controller ''svc'')"
    by (simp add: dl)
  from T [THEN conjunct2, THEN conjunct2, THEN conjunct1, THEN spec, THEN mp, OF this]
  have rej: "guarded_calls ''svc'' [(50, Inr 1), (119, Inr (2::nat))] tripped_controller
      = ([FailedFast, FailedFast], tripped_controller)"
    by (simp add: numeral_2_eq_2)
  have "deadline (circuits tripped_controller ''svc'') \<le> 120"
    by (simp add: dl)
  from T [THEN conjunct2, THEN conjunct2, THEN conjunct2, THEN spec, THEN mp, OF this]
  obtain s2 where
    b: "begin_call ''svc'' 120 tripped_controller = (Admitted, s2)" and
    m: "mode (circuits s2 ''svc'') = HalfOpen" and
    r: "\<forall>u' (a :: failure + nat). begin_call ''svc'' u' s2 = (Rejected, s2) \<and>
          guarded_call ''svc'' u' a s2 = (FailedFast, s2)" and
    w: "\<forall>w. mode (circuits (end_call ''svc'' True w s2) ''svc'') = Closed \<and>
          failureCount (circuits (end_call ''svc'' True w s2) ''svc'') = 0 \<and>
          mode (circuits (end_call ''svc'' False w s2) ''svc'') = Open \<and>
          deadline (circuits (end_call ''svc'' False w s2) ''svc'')
            = w + cooldown (circuits fresh_controller ''svc'')"
    by blast
  have att: "attempted tripped_controller = [(''svc'', 10), (''svc'', 20)]"
    by (simp add: tripped_controller_def two_failures_def fresh_controller_def
        guarded_call_def begin_call_def admit_def end_call_def report_def)
  from h(1,4) op dl att rej b m r w cd(1) show ?thesis by simp
qed

end
